theory Spec2Isabelle
  imports
    Main
    "HOL-Library.Multiset"
    "HOL-Library.Char_ord"
    "HOL-Library.List_Lexorder"
begin

section \<open>Anagrams of a word over a word list (anagrams.py)\<close>

text \<open>
  A shallow embedding of \<^verbatim>\<open>anagrams.py\<close>. Python strings are \<^typ>\<open>string\<close>
  (a list of characters, ordered by code point as \<^verbatim>\<open>sorted\<close> orders them; the
  model's characters are the code points below 256). A divider is a tuple of Python
  integers, so an \<^typ>\<open>int list\<close>; a word partition is a \<^typ>\<open>string list\<close>
  (the source returns a list in one strategy and a tuple in the other). A frozenset of
  strings is a \<^typ>\<open>string set\<close>.

  Two things the source leaves to the Python runtime are parameters of the model:
  the order in which a frozenset is iterated, and the order in which a process pool
  hands back the results of \<^verbatim>\<open>imap_unordered\<close>.
\<close>

subsection \<open>The Python runtime\<close>

record runtime =
  frozenset_order :: "string set \<Rightarrow> string list"
  pool_order :: "nat \<Rightarrow> nat list"

text \<open>
  Iterating a finite set yields each element once; a pool of workers given \<open>n\<close> work
  items hands back the result of each item once, item \<open>i\<close> at the place where \<open>i\<close>
  stands in \<open>pool_order rt n\<close>.
\<close>

definition runtime_ok :: "runtime \<Rightarrow> bool" where
  "runtime_ok rt \<longleftrightarrow>
     (\<forall>S. finite S \<longrightarrow> set (frozenset_order rt S) = S \<and> distinct (frozenset_order rt S)) \<and>
     (\<forall>n. mset (pool_order rt n) = mset [0..<n])"

text \<open>\<^verbatim>\<open>pool.imap_unordered(f, items, chunk_size)\<close>, read to its end.\<close>

definition imap_unordered :: "runtime \<Rightarrow> ('a \<Rightarrow> 'b) \<Rightarrow> 'a list \<Rightarrow> 'b list" where
  "imap_unordered rt f items = map (\<lambda>i. f (items ! i)) (pool_order rt (length items))"

text \<open>A runtime that iterates sets in sorted order and finishes the last item first.\<close>

definition sorted_runtime :: runtime where
  "sorted_runtime = \<lparr> frozenset_order = sorted_list_of_set, pool_order = (\<lambda>n. rev [0..<n]) \<rparr>"

subsection \<open>itertools\<close>

text \<open>
  \<^verbatim>\<open>combinations(xs, k)\<close>: the \<open>k\<close>-element subsequences of \<open>xs\<close>, in lexicographic
  order of the positions chosen.
\<close>

fun combinations :: "'a list \<Rightarrow> nat \<Rightarrow> 'a list list" where
  "combinations xs 0 = [[]]"
| "combinations [] (Suc k) = []"
| "combinations (x # xs) (Suc k) = map ((#) x) (combinations xs k) @ combinations xs (Suc k)"

text \<open>
  \<^verbatim>\<open>permutations(xs, r)\<close>: the arrangements of \<open>r\<close> positions of \<open>xs\<close>, in
  lexicographic order of the positions; equal elements at different positions are
  different choices, and there is none when \<open>r\<close> exceeds the length.
\<close>

fun permutations :: "'a list \<Rightarrow> nat \<Rightarrow> 'a list list" where
  "permutations xs 0 = [[]]"
| "permutations xs (Suc r) =
     concat (map (\<lambda>i. map ((#) (xs ! i)) (permutations (take i xs @ drop (Suc i) xs) r))
               [0..<length xs])"

text \<open>\<^verbatim>\<open>product(*bins)\<close>: one element of each bin, the first bin varying slowest.\<close>

fun product :: "'a list list \<Rightarrow> 'a list list" where
  "product [] = [[]]"
| "product (bin # bins) = concat (map (\<lambda>x. map ((#) x) (product bins)) bin)"

subsection \<open>Slices and ranges\<close>

text \<open>
  Python's \<^verbatim>\<open>xs[a:b]\<close>: a negative index counts from the end, and both ends are
  clamped to the list.
\<close>

definition slice_index :: "nat \<Rightarrow> int \<Rightarrow> nat" where
  "slice_index n i = (if i < 0 then nat (max 0 (int n + i)) else min (nat i) n)"

definition slice :: "'a list \<Rightarrow> int \<Rightarrow> int \<Rightarrow> 'a list" where
  "slice xs a b =
     (let lo = slice_index (length xs) a; hi = slice_index (length xs) b
      in take (hi - lo) (drop lo xs))"

text \<open>\<^verbatim>\<open>xs[:b]\<close> and \<^verbatim>\<open>xs[a:]\<close>.\<close>

definition slice_to :: "'a list \<Rightarrow> int \<Rightarrow> 'a list" where
  "slice_to xs b = slice xs 0 b"

definition slice_from :: "'a list \<Rightarrow> int \<Rightarrow> 'a list" where
  "slice_from xs a = slice xs a (int (length xs))"

text \<open>\<^verbatim>\<open>range(1, n)\<close> as a list of Python integers.\<close>

definition range1 :: "nat \<Rightarrow> int list" where
  "range1 n = map int [1..<n]"

subsection \<open>The functions of anagrams.py\<close>

definition div_to_integer_partition :: "int list \<Rightarrow> int \<Rightarrow> int list" where
  "div_to_integer_partition divider word_length =
     (let augmented_divider = [0] @ divider @ [word_length]
      in map (\<lambda>i. augmented_divider ! i - augmented_divider ! (i - 1))
           [1..<length augmented_divider])"

text \<open>
  \<open>word_list_by_length\<close> is a \<^verbatim>\<open>defaultdict(list)\<close>: a key that was never stored
  reads as the empty list, so it is a total function from keys to buckets.
\<close>

definition ip_to_word_partitions :: "int list \<Rightarrow> (int \<Rightarrow> string list) \<Rightarrow> string list list" where
  "ip_to_word_partitions integer_partition word_list_by_length =
     (let word_choice_bins = map word_list_by_length integer_partition
      in product word_choice_bins)"

definition wp_to_comparable_form :: "string list \<Rightarrow> string" where
  "wp_to_comparable_form word_partition = sort (concat word_partition)"

text \<open>
  The body of the loop of \<^verbatim>\<open>dividers_to_word_partitions\<close>: the word partition
  \<^verbatim>\<open>div_word_partitions\<close> that one divider cuts out of the word.
\<close>

definition div_word_partitions :: "string \<Rightarrow> int list \<Rightarrow> string list" where
  "div_word_partitions word dv =
     (if length dv \<le> 0 then [word]
      else [slice_to word (dv ! 0)]
           @ map (\<lambda>i. slice word (dv ! i) (dv ! (i + 1))) [0..<length dv - 1]
           @ [slice_from word (last dv)])"

definition dividers_to_word_partitions :: "string \<Rightarrow> int list list \<Rightarrow> string list list" where
  "dividers_to_word_partitions word dividers = map (div_word_partitions word) dividers"

definition ordered_word_anagrams :: "string \<Rightarrow> string set \<Rightarrow> int list list \<Rightarrow> string list list" where
  "ordered_word_anagrams word word_list_set dividers =
     filter (\<lambda>wp. set wp \<subseteq> word_list_set) (dividers_to_word_partitions word dividers)"

definition div_to_anagrams ::
  "int list \<Rightarrow> (int \<Rightarrow> string list) \<Rightarrow> int \<Rightarrow> string \<Rightarrow> string list list" where
  "div_to_anagrams divider word_list_by_length word_length comparable_form_of_word =
     (let word_length_int_partition = div_to_integer_partition divider word_length;
          ip_word_partitions = ip_to_word_partitions word_length_int_partition word_list_by_length
      in filter (\<lambda>wp. wp_to_comparable_form wp = comparable_form_of_word) ip_word_partitions)"

definition reduced_word_list :: "string \<Rightarrow> string list \<Rightarrow> string set" where
  "reduced_word_list word word_list =
     \<Union> (set (map (\<lambda>i. set (permutations word i) \<inter> set word_list) [1..<length word]))"

definition anagrams_word_centric ::
  "runtime \<Rightarrow> string \<Rightarrow> string set \<Rightarrow> int list list \<Rightarrow> int \<Rightarrow> string list list" where
  "anagrams_word_centric rt word word_list_set dividers nprocs =
     (let word_permutations = permutations word (length word);
          owas = (\<lambda>wp. ordered_word_anagrams wp word_list_set dividers)
      in if nprocs \<le> 1 then concat (map owas word_permutations)
         else concat (imap_unordered rt owas word_permutations))"

text \<open>The loop that buckets the words of the set by their length.\<close>

definition bucket_by_length :: "string list \<Rightarrow> (int \<Rightarrow> string list)" where
  "bucket_by_length ws =
     fold (\<lambda>wl_word by_length.
             by_length (int (length wl_word) := by_length (int (length wl_word)) @ [wl_word]))
          ws (\<lambda>_. [])"

definition anagrams_word_list_centric ::
  "runtime \<Rightarrow> string \<Rightarrow> string set \<Rightarrow> int list list \<Rightarrow> int \<Rightarrow> string list list" where
  "anagrams_word_list_centric rt word word_list_set dividers nprocs =
     (let comparable_form_of_word = wp_to_comparable_form [word];
          word_list_by_length = bucket_by_length (frozenset_order rt word_list_set);
          dtas = (\<lambda>d. div_to_anagrams d word_list_by_length (int (length word))
                         comparable_form_of_word)
      in if nprocs \<le> 1 then concat (map dtas dividers)
         else concat (imap_unordered rt dtas dividers))"

text \<open>
  \<^verbatim>\<open>str.split()\<close> cuts at the characters \<^verbatim>\<open>str.isspace\<close> accepts; below code point
  256 these are 9 to 13, 28 to 32, 133 and 160.
\<close>

definition isspace :: "char \<Rightarrow> bool" where
  "isspace c \<longleftrightarrow> (of_char c :: nat) \<in> {9, 10, 11, 12, 13, 28, 29, 30, 31, 32, 133, 160}"

text \<open>\<^verbatim>\<open>''.join(word.split())\<close>\<close>

definition remove_whitespace :: "string \<Rightarrow> string" where
  "remove_whitespace word = filter (\<lambda>c. \<not> isspace c) word"

text \<open>The dividers \<^verbatim>\<open>word_anagrams\<close> builds for a word of length \<open>n\<close>.\<close>

definition k_divider_sets :: "nat \<Rightarrow> int list list list" where
  "k_divider_sets n = map (\<lambda>k. combinations (range1 n) k) [0..<n]"

definition all_dividers :: "nat \<Rightarrow> int list list" where
  "all_dividers n = concat (k_divider_sets n)"

datatype error = KeyError

type_synonym anagram_method =
  "runtime \<Rightarrow> string \<Rightarrow> string set \<Rightarrow> int list list \<Rightarrow> int \<Rightarrow> string list list"

definition anagram_methods :: "string \<rightharpoonup> anagram_method" where
  "anagram_methods =
     [''word_centric'' \<mapsto> anagrams_word_centric,
      ''word_list_centric'' \<mapsto> anagrams_word_list_centric]"

text \<open>
  The body of \<^verbatim>\<open>word_anagrams\<close> is straight-line code: its statements run in the
  order they are written, and the lookup \<^verbatim>\<open>anagram_methods[method]\<close> is the only
  one that can raise. A run of the function is the list of the statements it has
  executed when it returns or raises, together with what it returns or raises.
\<close>

datatype statement =
  Remove_whitespace | Reduce_word_list | Enumerate_dividers | Select_method | Run_method

record run =
  executed :: "statement list"
  outcome :: "error + string list list"

definition word_anagrams_run ::
  "runtime \<Rightarrow> string \<Rightarrow> string list \<Rightarrow> string \<Rightarrow> int \<Rightarrow> run" where
  "word_anagrams_run rt word word_list method nprocs =
     (let word' = remove_whitespace word;
          word_list_set = reduced_word_list word' word_list;
          dividers = all_dividers (length word');
          so_far = [Remove_whitespace, Reduce_word_list, Enumerate_dividers, Select_method]
      in case anagram_methods method of
           None \<Rightarrow> \<lparr> executed = so_far, outcome = Inl KeyError \<rparr>
         | Some anagram_method \<Rightarrow>
             \<lparr> executed = so_far @ [Run_method],
               outcome = Inr (anagram_method rt word' word_list_set dividers nprocs) \<rparr>)"

text \<open>What \<^verbatim>\<open>word_anagrams\<close> returns or raises.\<close>

definition word_anagrams ::
  "runtime \<Rightarrow> string \<Rightarrow> string list \<Rightarrow> string \<Rightarrow> int \<Rightarrow> error + string list list" where
  "word_anagrams rt word word_list method nprocs =
     outcome (word_anagrams_run rt word word_list method nprocs)"

subsection \<open>Auxiliary notions used to state the properties\<close>

text \<open>The differences of the consecutive pairs of a list.\<close>

fun diffs :: "int list \<Rightarrow> int list" where
  "diffs (a # b # xs) = (b - a) # diffs (b # xs)"
| "diffs xs = []"

text \<open>The slices of a list between the consecutive pairs of a list of cut points.\<close>

fun slices :: "'a list \<Rightarrow> int list \<Rightarrow> 'a list list" where
  "slices xs (a # b # cuts) = slice xs a b # slices xs (b # cuts)"
| "slices xs cuts = []"

text \<open>The cumulative prefix sums of a tuple: \<open>(x1, x1 + x2, ...)\<close>.\<close>

fun running_sums :: "int \<Rightarrow> int list \<Rightarrow> int list" where
  "running_sums acc [] = []"
| "running_sums acc (x # xs) = (acc + x) # running_sums (acc + x) xs"

definition cumulative_sums :: "int list \<Rightarrow> int list" where
  "cumulative_sums xs = running_sums 0 xs"

text \<open>
  A divider of a word of length \<open>n\<close>: strictly increasing cut positions in the open
  interval \<open>(0, n)\<close>.
\<close>

definition valid_divider :: "nat \<Rightarrow> int list \<Rightarrow> bool" where
  "valid_divider n d \<longleftrightarrow> sorted_wrt (<) d \<and> (\<forall>x\<in>set d. 0 < x \<and> x < int n)"

section \<open>Comparable forms\<close>

lemma sort_eq_iff_mset: "sort xs = sort ys \<longleftrightarrow> mset xs = mset ys"
  by (metis mset_sort properties_for_sort sorted_sort)

lemma mset_concat_cong: "mset xss = mset yss \<Longrightarrow> mset (concat xss) = mset (concat yss)"
  by (metis mset_concat mset_map sum_mset_sum_list)

lemma mset_concat_all2:
  "list_all2 (\<lambda>w1 w2. mset w1 = mset w2) s1 s2 \<Longrightarrow> mset (concat s1) = mset (concat s2)"
  by (induction rule: list_all2_induct) simp_all

lemma comparable_form_eq_iff:
  "wp_to_comparable_form s1 = wp_to_comparable_form s2 \<longleftrightarrow> mset (concat s1) = mset (concat s2)"
  by (simp add: wp_to_comparable_form_def sort_eq_iff_mset)

text \<open>
  C6: \<open>wp_to_comparable_form\<close> does not change when the elements of a word sequence
  are reordered (the two sequences are equal as multisets), nor when the characters
  inside the elements are reordered (the sequences agree element by element up to the
  order of characters); and two word sequences have the same comparable form exactly
  when the multisets of characters over all their elements are equal.
\<close>

theorem comparable_form_canonical:
  "(mset s1 = mset s2 \<longrightarrow> wp_to_comparable_form s1 = wp_to_comparable_form s2) \<and>
   (list_all2 (\<lambda>w1 w2. mset w1 = mset w2) s1 s2 \<longrightarrow>
      wp_to_comparable_form s1 = wp_to_comparable_form s2) \<and>
   (wp_to_comparable_form s1 = wp_to_comparable_form s2 \<longleftrightarrow>
      mset (concat s1) = mset (concat s2))"
  using mset_concat_cong [of s1 s2] mset_concat_all2 [of s1 s2]
  by (simp add: comparable_form_eq_iff)

theorem comparable_form_canonical_witness:
  "mset [''ea'', ''t''] = mset [''t'', ''ea''] \<and>
   wp_to_comparable_form [''ea'', ''t''] = wp_to_comparable_form [''t'', ''ea''] \<and>
   list_all2 (\<lambda>w1 w2. mset w1 = mset w2) [''ea'', ''t''] [''ae'', ''t''] \<and>
   wp_to_comparable_form [''ea'', ''t''] = wp_to_comparable_form [''ae'', ''t''] \<and>
   wp_to_comparable_form [''ea'', ''t''] = ''aet'' \<and>
   wp_to_comparable_form [''ea'', ''t''] \<noteq> wp_to_comparable_form [''e'', ''t'']"
  using comparable_form_canonical [of "[''ea'', ''t'']" "[''t'', ''ea'']"]
    comparable_form_canonical [of "[''ea'', ''t'']" "[''ae'', ''t'']"]
    comparable_form_canonical [of "[''ea'', ''t'']" "[''e'', ''t'']"]
  by (simp add: wp_to_comparable_form_def)

section \<open>Integer partitions of dividers\<close>

lemma length_diffs: "length (diffs xs) = length xs - 1"
  by (induction xs rule: diffs.induct) simp_all

lemma nth_diffs: "i < length xs - 1 \<Longrightarrow> diffs xs ! i = xs ! Suc i - xs ! i"
proof (induction xs arbitrary: i rule: diffs.induct)
  case (1 a b xs)
  then show ?case by (cases i) simp_all
qed simp_all

lemma index_diffs: "map (\<lambda>i. xs ! i - xs ! (i - 1)) [1..<length xs] = diffs xs"
  by (rule nth_equalityI) (simp_all add: length_diffs nth_diffs)

lemma div_to_integer_partition_diffs:
  "div_to_integer_partition d L = diffs (0 # d @ [L])"
  using index_diffs [of "0 # d @ [L]"] by (simp add: div_to_integer_partition_def)

lemma running_sums_diffs: "running_sums a (diffs (a # xs)) = xs"
  by (induction xs arbitrary: a) simp_all

lemma sum_list_diffs: "sum_list (diffs (a # xs)) = last (a # xs) - a"
  by (induction xs arbitrary: a) simp_all

lemma diffs_positive: "sorted_wrt (<) xs \<Longrightarrow> p \<in> set (diffs xs) \<Longrightarrow> 0 < p"
  by (induction xs rule: diffs.induct) auto

lemma augmented_sorted:
  assumes "sorted_wrt (<) d" and "\<forall>x\<in>set d. 0 < x \<and> x < L" and "0 < L"
  shows "sorted_wrt (<) (0 # d @ [L])"
  using assms by (auto simp: sorted_wrt_append)

text \<open>
  C5, as amended: for every length \<open>L\<close> and every strictly increasing divider \<open>d\<close>
  with entries in the open interval \<open>(0, L)\<close>, the tuple
  \<open>div_to_integer_partition d L\<close> sums to \<open>L\<close>, and its cumulative prefix sums
  without the last one (which is \<open>L\<close>) are \<open>d\<close> again; when \<open>L\<close> is at least 1,
  its entries are all positive.
\<close>

theorem div_to_integer_partition_round_trip:
  assumes "sorted_wrt (<) d" and "\<forall>x\<in>set d. 0 < x \<and> x < L"
  shows "sum_list (div_to_integer_partition d L) = L \<and>
         butlast (cumulative_sums (div_to_integer_partition d L)) = d \<and>
         (1 \<le> L \<longrightarrow> (\<forall>p\<in>set (div_to_integer_partition d L). 0 < p))"
proof (intro conjI impI ballI)
  show "sum_list (div_to_integer_partition d L) = L"
    by (simp add: div_to_integer_partition_diffs sum_list_diffs)
  show "butlast (cumulative_sums (div_to_integer_partition d L)) = d"
    by (simp add: div_to_integer_partition_diffs cumulative_sums_def running_sums_diffs)
next
  fix p
  assume "1 \<le> L" and p: "p \<in> set (div_to_integer_partition d L)"
  then have "sorted_wrt (<) (0 # d @ [L])"
    using assms augmented_sorted [of d L] by simp
  moreover have "p \<in> set (diffs (0 # d @ [L]))"
    using p by (simp add: div_to_integer_partition_diffs)
  ultimately show "0 < p" by (rule diffs_positive)
qed

theorem div_to_integer_partition_round_trip_witness:
  "sorted_wrt (<) [1, 3, 4 :: int] \<and>
   div_to_integer_partition [1, 3, 4] 6 = [1, 2, 1, 2] \<and>
   sum_list (div_to_integer_partition [1, 3, 4] 6) = 6 \<and>
   cumulative_sums (div_to_integer_partition [1, 3, 4] 6) = [1, 3, 4, 6] \<and>
   butlast (cumulative_sums (div_to_integer_partition [1, 3, 4] 6)) = [1, 3, 4]"
  using div_to_integer_partition_round_trip [of "[1, 3, 4]" 6]
  by (simp add: div_to_integer_partition_def cumulative_sums_def)

text \<open>
  For length 0 the empty tuple is a strictly increasing divider with entries in
  \<open>(0, 0)\<close>, and its integer partition \<open>(0,)\<close> has an entry that is not positive.
\<close>

theorem div_to_integer_partition_positive_counterexample:
  "div_to_integer_partition [] 0 = [0] \<and>
   \<not> (sorted_wrt (<) ([] :: int list) \<and> (\<forall>x\<in>set ([] :: int list). 0 < x \<and> x < 0) \<longrightarrow>
        (\<forall>p\<in>set (div_to_integer_partition [] 0). 0 < p))"
  by (simp add: div_to_integer_partition_def)

section \<open>The divider enumeration\<close>

lemma length_combinations: "length (combinations xs k) = length xs choose k"
  by (induction xs k rule: combinations.induct) simp_all

lemma combinations_length: "ys \<in> set (combinations xs k) \<Longrightarrow> length ys = k"
  by (induction xs k arbitrary: ys rule: combinations.induct) auto

lemma combinations_subset: "ys \<in> set (combinations xs k) \<Longrightarrow> set ys \<subseteq> set xs"
proof (induction xs k arbitrary: ys rule: combinations.induct)
  case (3 x xs k)
  then show ?case by fastforce
qed simp_all

lemma combinations_sorted:
  "sorted_wrt R xs \<Longrightarrow> ys \<in> set (combinations xs k) \<Longrightarrow> sorted_wrt R ys"
proof (induction xs k arbitrary: ys rule: combinations.induct)
  case (3 x xs k)
  from "3.prems"(1) have R: "\<forall>y\<in>set xs. R x y" and xs: "sorted_wrt R xs" by simp_all
  from "3.prems"(2) consider zs where "ys = x # zs" "zs \<in> set (combinations xs k)"
    | "ys \<in> set (combinations xs (Suc k))" by auto
  then show ?case
  proof cases
    case 1
    then have "sorted_wrt R zs" and "set zs \<subseteq> set xs"
      using "3.IH"(1) xs combinations_subset by blast+
    with R 1 show ?thesis by auto
  next
    case 2
    then show ?thesis using "3.IH"(2) xs by blast
  qed
qed simp_all

lemma distinct_combinations: "distinct xs \<Longrightarrow> distinct (combinations xs k)"
proof (induction xs k rule: combinations.induct)
  case (3 x xs k)
  have "x \<notin> set xs" using "3.prems" by simp
  then have "ys \<notin> set (combinations xs (Suc k))" if "hd ys = x" "ys \<noteq> []" for ys
    using that combinations_subset [of ys xs "Suc k"] by (cases ys) auto
  then have "set (map ((#) x) (combinations xs k)) \<inter> set (combinations xs (Suc k)) = {}"
    by fastforce
  with 3 show ?case by (simp add: distinct_map)
qed simp_all

lemma distinct_concat_by_length:
  assumes "\<And>k. distinct (f k)" and "\<And>k ys. ys \<in> set (f k) \<Longrightarrow> length ys = k"
  shows "distinct (concat (map f [0..<n]))"
proof (induction n)
  case (Suc n)
  have "length ys < n" if "ys \<in> set (concat (map f [0..<n]))" for ys
    using that assms(2) by auto
  moreover have "length ys = n" if "ys \<in> set (f n)" for ys
    using that assms(2) by auto
  ultimately have "set (concat (map f [0..<n])) \<inter> set (f n) = {}"
    by fastforce
  with Suc assms(1) show ?case by simp
qed simp

lemma sorted_range1: "sorted_wrt (<) (range1 n)"
  by (simp add: range1_def sorted_wrt_map )

lemma set_range1: "set (range1 n) = {x. 0 < x \<and> x < int n}"
proof (intro set_eqI iffI)
  fix x assume "x \<in> {x. 0 < x \<and> x < int n}"
  then have "nat x \<in> set [1..<n]" and "x = int (nat x)" by auto
  then show "x \<in> set (range1 n)" unfolding range1_def by (metis imageI set_map)
qed (auto simp: range1_def)

lemma length_all_dividers: "1 \<le> n \<Longrightarrow> length (all_dividers n) = 2 ^ (n - 1)"
proof -
  assume "1 \<le> n"
  then obtain m where n: "n = Suc m" by (cases n) simp_all
  have "length (all_dividers n) = sum_list (map (\<lambda>k. m choose k) [0..<Suc m])"
    by (simp add: all_dividers_def k_divider_sets_def length_concat comp_def
        length_combinations range1_def n del: upt_Suc)
  also have "\<dots> = sum ((choose) m) {..m}"
    by (simp add: interv_sum_list_conv_sum_set_nat atLeast0_lessThan_Suc lessThan_Suc_atMost atLeast0LessThan del: upt_Suc)
  finally show ?thesis by (simp add: choose_row_sum n)
qed

lemma distinct_all_dividers: "distinct (all_dividers n)"
  unfolding all_dividers_def k_divider_sets_def
proof (rule distinct_concat_by_length)
  show "distinct (combinations (range1 n) k)" for k
    by (simp add: distinct_combinations range1_def distinct_map)
qed (rule combinations_length)

lemma all_dividers_valid:
  assumes "d \<in> set (all_dividers n)"
  shows "sorted_wrt (<) d" and "\<forall>x\<in>set d. 0 < x \<and> x < int n"
proof -
  from assms obtain k where d: "d \<in> set (combinations (range1 n) k)"
    by (auto simp: all_dividers_def k_divider_sets_def)
  then show "sorted_wrt (<) d"
    using combinations_sorted sorted_range1 by blast
  from d show "\<forall>x\<in>set d. 0 < x \<and> x < int n"
    using combinations_subset [OF d] set_range1 by auto
qed

text \<open>
  C4: for every word length \<open>L \<ge> 1\<close> the dividers built inside \<open>word_anagrams\<close>
  are exactly \<open>2 ^ (L - 1)\<close> tuples, pairwise distinct, each strictly increasing with
  every entry in the open interval \<open>(0, L)\<close>.
\<close>

theorem divider_enumeration:
  "1 \<le> L \<Longrightarrow>
     length (all_dividers L) = 2 ^ (L - 1) \<and> distinct (all_dividers L) \<and>
     (\<forall>d\<in>set (all_dividers L). sorted_wrt (<) d \<and> (\<forall>x\<in>set d. 0 < x \<and> x < int L))"
  using length_all_dividers distinct_all_dividers all_dividers_valid by blast

theorem divider_enumeration_witness:
  "(1::nat) \<le> 4 \<and>
   all_dividers 4 = [[], [1], [2], [3], [1, 2], [1, 3], [2, 3], [1, 2, 3]] \<and>
   length (all_dividers 4) = 2 ^ (4 - 1) \<and> distinct (all_dividers 4)"
proof -
  have "all_dividers 4 = [[], [1], [2], [3], [1, 2], [1, 3], [2, 3], [1, 2, 3]]"
    by code_simp
  then show ?thesis using divider_enumeration [of 4] by simp
qed

section \<open>The reduced word list\<close>

lemma mset_delete_nth:
  "i < length xs \<Longrightarrow> mset (take i xs @ drop (Suc i) xs) = mset xs - {#xs ! i#}"
proof -
  assume "i < length xs"
  then have "xs = take i xs @ xs ! i # drop (Suc i) xs" by (rule id_take_nth_drop)
  then have "mset xs = add_mset (xs ! i) (mset (take i xs @ drop (Suc i) xs))"
    by (metis mset.simps(2) mset_append union_mset_add_mset_right)
  then show ?thesis by simp
qed

lemma set_permutations:
  "set (permutations xs r) = {ys. length ys = r \<and> mset ys \<subseteq># mset xs}"
proof (induction r arbitrary: xs)
  case 0
  show ?case by auto
next
  case (Suc r)
  show ?case
  proof (intro set_eqI iffI)
    fix ys assume "ys \<in> set (permutations xs (Suc r))"
    then obtain i zs where i: "i < length xs" and ys: "ys = xs ! i # zs"
      and zs: "zs \<in> set (permutations (take i xs @ drop (Suc i) xs) r)"
      by auto
    from zs have "length zs = r \<and> mset zs \<subseteq># mset (take i xs @ drop (Suc i) xs)"
      unfolding Suc.IH by blast
    then have "length zs = r" and "mset zs \<subseteq># mset xs - {#xs ! i#}"
      unfolding mset_delete_nth [OF i] by blast+
    moreover have "xs ! i \<in># mset xs" using i by simp
    ultimately show "ys \<in> {ys. length ys = Suc r \<and> mset ys \<subseteq># mset xs}"
      using ys by (simp add: insert_subset_eq_iff)
  next
    fix ys assume "ys \<in> {ys. length ys = Suc r \<and> mset ys \<subseteq># mset xs}"
    then obtain y zs where ys: "ys = y # zs" and len: "length zs = r"
      and sub: "add_mset y (mset zs) \<subseteq># mset xs"
      by (cases ys) auto
    from sub have "y \<in> set xs" and rest: "mset zs \<subseteq># mset xs - {#y#}"
      by (simp_all add: insert_subset_eq_iff)
    then obtain i where i: "i < length xs" and y: "xs ! i = y"
      by (auto simp: in_set_conv_nth)
    have "zs \<in> set (permutations (take i xs @ drop (Suc i) xs) r)"
      unfolding Suc.IH mset_delete_nth [OF i] using len rest y by blast
    then show "ys \<in> set (permutations xs (Suc r))"
      using i y ys by auto
  qed
qed

lemma reduced_word_list_eq:
  "reduced_word_list word word_list =
     {w \<in> set word_list. 1 \<le> length w \<and> length w < length word \<and> mset w \<subseteq># mset word}"
  by (auto simp: reduced_word_list_def set_permutations)

text \<open>
  C7: for a word of length \<open>L\<close>, \<open>reduced_word_list\<close> returns exactly the entries
  of the word list whose length \<open>i\<close> satisfies \<open>1 \<le> i \<le> L - 1\<close> and whose letters,
  counted with multiplicity, are among the letters of the word. Entries of length 0,
  of length \<open>L\<close> or longer are not in it.
\<close>

theorem reduced_word_list_characterisation:
  "reduced_word_list word word_list =
     {w \<in> set word_list.
        1 \<le> int (length w) \<and> int (length w) \<le> int (length word) - 1 \<and>
        mset w \<subseteq># mset word}"
  by (auto simp: reduced_word_list_eq)

lemma finite_reduced_word_list: "finite (reduced_word_list word word_list)"
  by (simp add: reduced_word_list_eq)

text \<open>The reduced word list of the worked example.\<close>

theorem reduced_word_list_characterisation_witness:
  "reduced_word_list ''eat'' [''eat'', ''ate'', ''tea'', ''ea'', ''at'', ''e'', ''a'', ''t'']
     = {''ea'', ''at'', ''e'', ''a'', ''t''}"
  unfolding reduced_word_list_characterisation by (auto simp: insert_subset_eq_iff)

section \<open>The empty word and the method selector\<close>

lemma word_anagrams_eq:
  "word_anagrams rt word word_list method nprocs =
     (let word' = remove_whitespace word;
          word_list_set = reduced_word_list word' word_list;
          dividers = all_dividers (length word')
      in case anagram_methods method of
           None \<Rightarrow> Inl KeyError
         | Some anagram_method \<Rightarrow> Inr (anagram_method rt word' word_list_set dividers nprocs))"
  by (simp add: word_anagrams_def word_anagrams_run_def Let_def split: option.split)


lemma runtime_ok_sorted_runtime: "runtime_ok sorted_runtime"
  by (simp add: runtime_ok_def sorted_runtime_def)

lemma all_dividers_0: "all_dividers 0 = []"
  by (simp add: all_dividers_def k_divider_sets_def)

lemma reduced_word_list_Nil: "reduced_word_list [] word_list = {}"
  by (simp add: reduced_word_list_def)

lemma runtime_ok_pool: "runtime_ok rt \<Longrightarrow> mset (pool_order rt n) = mset [0..<n]"
  unfolding runtime_ok_def by blast

lemma runtime_ok_frozenset:
  "runtime_ok rt \<Longrightarrow> finite S \<Longrightarrow> set (frozenset_order rt S) = S \<and> distinct (frozenset_order rt S)"
  unfolding runtime_ok_def by blast

lemma pool_order_0: "runtime_ok rt \<Longrightarrow> pool_order rt 0 = []"
  using runtime_ok_pool [of rt 0] by simp

lemma anagrams_word_centric_no_dividers: "anagrams_word_centric rt word S [] nprocs = []"
  by (simp add: anagrams_word_centric_def ordered_word_anagrams_def
      dividers_to_word_partitions_def imap_unordered_def Let_def)

lemma anagrams_word_list_centric_no_dividers:
  "runtime_ok rt \<Longrightarrow> anagrams_word_list_centric rt word S [] nprocs = []"
  by (simp add: anagrams_word_list_centric_def imap_unordered_def pool_order_0 Let_def)

text \<open>
  C9: for the empty word, and for a word of whitespace characters only,
  \<open>word_anagrams\<close> returns the empty list under either method and raises nothing;
  the divider enumeration and the reduced word list of the normalised word are empty.
\<close>

theorem word_anagrams_whitespace_only:
  assumes "runtime_ok rt" and "\<forall>c\<in>set word. isspace c"
    and "method \<in> {''word_centric'', ''word_list_centric''}"
  shows "word_anagrams rt word word_list method nprocs = Inr [] \<and>
         all_dividers (length (remove_whitespace word)) = [] \<and>
         reduced_word_list (remove_whitespace word) word_list = {}"
proof -
  have "remove_whitespace word = []"
    using assms(2) by (simp add: remove_whitespace_def)
  moreover have "anagram_methods method = Some anagrams_word_centric \<or>
                 anagram_methods method = Some anagrams_word_list_centric"
    using assms(3) by (auto simp: anagram_methods_def)
  ultimately show ?thesis
    using assms(1)
    by (auto simp: word_anagrams_eq all_dividers_0 reduced_word_list_Nil
        anagrams_word_centric_no_dividers anagrams_word_list_centric_no_dividers)
qed

theorem word_anagrams_whitespace_only_witness:
  "runtime_ok sorted_runtime \<and> isspace CHR '' '' \<and> isspace (CHR 0x09) \<and>
   word_anagrams sorted_runtime [CHR '' '', CHR 0x09] [''a'', ''''] ''word_centric'' 4 = Inr [] \<and>
   word_anagrams sorted_runtime [] [''a'', ''''] ''word_list_centric'' 1 = Inr []"
  using word_anagrams_whitespace_only [of sorted_runtime "[CHR '' '', CHR 0x09]" "''word_centric''" "[''a'', '''']" 4]
    word_anagrams_whitespace_only [of sorted_runtime "[]" "''word_list_centric''" "[''a'', '''']" 1]
    runtime_ok_sorted_runtime
  by (simp add: isspace_def)




section \<open>Slicing a word by a divider\<close>

lemma slice_index_nat: "slice_index n (int k) = min k n"
  by (simp add: slice_index_def)

lemma slice_index_nonneg: "0 \<le> a \<Longrightarrow> a \<le> int n \<Longrightarrow> slice_index n a = nat a"
  by (auto simp: slice_index_def)

lemma slice_full: "slice xs 0 (int (length xs)) = xs"
  by (simp add: slice_def slice_index_def)

lemma slice_within:
  "0 \<le> a \<Longrightarrow> a \<le> b \<Longrightarrow> b \<le> int (length xs) \<Longrightarrow>
     slice xs a b = take (nat b - nat a) (drop (nat a) xs)"
  by (simp add: slice_def slice_index_nonneg Let_def)

lemma length_slice:
  "0 \<le> a \<Longrightarrow> a \<le> b \<Longrightarrow> b \<le> int (length xs) \<Longrightarrow> int (length (slice xs a b)) = b - a"
  by (simp add: slice_within)

lemma slice_append:
  assumes "0 \<le> a" "a \<le> b" "b \<le> c" "c \<le> int (length xs)"
  shows "slice xs a b @ slice xs b c = slice xs a c"
proof -
  have "take (nat b - nat a) (drop (nat a) xs) @ take (nat c - nat b) (drop (nat b) xs)
        = take (nat c - nat a) (drop (nat a) xs)"
  proof -
    have "nat c - nat a = (nat b - nat a) + (nat c - nat b)" using assms by linarith
    moreover have "drop (nat b - nat a) (drop (nat a) xs) = drop (nat b) xs"
      using assms by simp
    ultimately show ?thesis by (simp add: take_add)
  qed
  then show ?thesis using assms by (simp add: slice_within)
qed

lemma slice_middle:
  "slice (pre @ w @ suf) (int (length pre)) (int (length pre) + int (length w)) = w"
proof -
  have "int (length pre) + int (length w) = int (length pre + length w)" by simp
  then show ?thesis unfolding slice_def Let_def
    by (simp only: slice_index_nat) simp
qed

lemma slices_of_divider_tail:
  "dv \<noteq> [] \<Longrightarrow>
     map (\<lambda>i. slice xs (dv ! i) (dv ! (i + 1))) [0..<length dv - 1] @ [slice xs (last dv) L]
       = slices xs (dv @ [L])"
proof (induction dv rule: induct_list012)
  case (3 a b rest)
  have "map (\<lambda>i. slice xs ((a # b # rest) ! i) ((a # b # rest) ! (i + 1))) [0..<length (a # b # rest) - 1]
        = slice xs a b # map (\<lambda>i. slice xs ((b # rest) ! i) ((b # rest) ! (i + 1))) [0..<length (b # rest) - 1]"
    by (simp add: map_upt_Suc del: upt_Suc)
  with 3 show ?case by simp
qed simp_all

lemma div_word_partitions_slices:
  "div_word_partitions word dv = slices word (0 # dv @ [int (length word)])"
proof (cases dv)
  case Nil
  then show ?thesis by (simp add: div_word_partitions_def slice_full)
next
  case (Cons a rest)
  then have "dv \<noteq> []" by simp
  from slices_of_divider_tail [OF this, of word "int (length word)"] Cons
  show ?thesis by (simp add: div_word_partitions_def slice_to_def slice_from_def)
qed

lemma length_slices: "length (slices xs cuts) = length cuts - 1"
  by (induction xs cuts rule: slices.induct) simp_all

lemma slices_lengths:
  "sorted cuts \<Longrightarrow> \<forall>x\<in>set cuts. 0 \<le> x \<and> x \<le> int (length xs) \<Longrightarrow>
     map (\<lambda>w. int (length w)) (slices xs cuts) = diffs cuts"
  by (induction xs cuts rule: slices.induct) (simp_all add: length_slice)

lemma concat_slices:
  "sorted (a # cuts) \<Longrightarrow> \<forall>x\<in>set (a # cuts). 0 \<le> x \<and> x \<le> int (length xs) \<Longrightarrow>
     concat (slices xs (a # cuts)) = slice xs a (last (a # cuts))"
proof (induction cuts arbitrary: a)
  case Nil
  then show ?case by (simp add: slice_within)
next
  case (Cons b cuts)
  then have IH: "concat (slices xs (b # cuts)) = slice xs b (last (b # cuts))" by simp
  have "a \<le> b" "0 \<le> a" "b \<le> last (b # cuts)" "last (b # cuts) \<le> int (length xs)"
    using Cons.prems by (auto simp: )
  then show ?case using IH slice_append [of a b "last (b # cuts)" xs] by simp
qed

lemma slices_concat:
  "diffs (a # cuts) = map (\<lambda>w. int (length w)) wp \<Longrightarrow> a = int (length pre) \<Longrightarrow>
     slices (pre @ concat wp @ suf) (a # cuts) = wp"
proof (induction wp arbitrary: pre a cuts)
  case Nil
  then show ?case by (cases cuts) simp_all
next
  case (Cons w ws)
  then obtain b rest where cuts: "cuts = b # rest" by (cases cuts) auto
  with Cons.prems have b: "b = int (length (pre @ w))"
    and rest: "diffs (b # rest) = map (\<lambda>w. int (length w)) ws" by simp_all
  have "slices ((pre @ w) @ concat ws @ suf) (b # rest) = ws"
    using Cons.IH [OF rest b] .
  moreover have "slice (pre @ w @ concat ws @ suf) a b = w"
    using slice_middle [of pre w "concat ws @ suf"] Cons.prems(2) b by simp
  ultimately show ?case using cuts by simp
qed


section \<open>Buckets, products and the pool\<close>

lemma bucket_fold:
  "fold (\<lambda>wl_word by_length.
           by_length (int (length wl_word) := by_length (int (length wl_word)) @ [wl_word]))
        ws m
   = (\<lambda>j. m j @ filter (\<lambda>w. int (length w) = j) ws)"
  by (induction ws arbitrary: m) (auto simp: fun_eq_iff)

lemma bucket_by_length_eq: "bucket_by_length ws j = filter (\<lambda>w. int (length w) = j) ws"
  by (simp add: bucket_by_length_def bucket_fold)

lemma set_product: "set (product bins) = {xs. list_all2 (\<lambda>x bin. x \<in> set bin) xs bins}"
proof (induction bins)
  case Nil
  show ?case by simp
next
  case (Cons bin bins)
  show ?case
  proof (intro set_eqI iffI)
    fix xs assume "xs \<in> set (product (bin # bins))"
    then show "xs \<in> {xs. list_all2 (\<lambda>x bin. x \<in> set bin) xs (bin # bins)}"
      using Cons.IH by auto
  next
    fix xs assume "xs \<in> {xs. list_all2 (\<lambda>x bin. x \<in> set bin) xs (bin # bins)}"
    then obtain y ys where "xs = y # ys" "y \<in> set bin" "list_all2 (\<lambda>x bin. x \<in> set bin) ys bins"
      by (auto simp: list_all2_Cons2)
    then show "xs \<in> set (product (bin # bins))"
      using Cons.IH by auto
  qed
qed

lemma distinct_concat_map:
  assumes "distinct xs" and "\<And>x. x \<in> set xs \<Longrightarrow> distinct (f x)"
    and "\<And>x y. x \<in> set xs \<Longrightarrow> y \<in> set xs \<Longrightarrow> x \<noteq> y \<Longrightarrow> set (f x) \<inter> set (f y) = {}"
  shows "distinct (concat (map f xs))"
  using assms
proof (induction xs)
  case (Cons x xs)
  have "set (f x) \<inter> set (f y) = {}" if "y \<in> set xs" for y
    using that Cons.prems(3) [of x y] Cons.prems(1) by auto
  then have "set (f x) \<inter> \<Union> (set ` f ` set xs) = {}" by blast
  moreover have "distinct (concat (map f xs))"
    using Cons by simp
  ultimately show ?case using Cons.prems(2) by simp
qed simp

lemma distinct_product: "\<forall>bin\<in>set bins. distinct bin \<Longrightarrow> distinct (product bins)"
proof (induction bins)
  case (Cons bin bins)
  then have "distinct bin" and tail: "distinct (product bins)" by simp_all
  show ?case unfolding product.simps
  proof (rule distinct_concat_map)
    show "distinct bin" by fact
    show "distinct (map ((#) x) (product bins))" for x
      using tail by (simp add: distinct_map)
    show "set (map ((#) x) (product bins)) \<inter> set (map ((#) y) (product bins)) = {}"
      if "x \<noteq> y" for x y using that by auto
  qed
qed simp

lemma mset_imap_unordered:
  assumes "runtime_ok rt"
  shows "mset (imap_unordered rt f items) = mset (map f items)"
proof -
  have "mset (imap_unordered rt f items)
        = image_mset (\<lambda>i. f (items ! i)) (mset (pool_order rt (length items)))"
    by (simp add: imap_unordered_def)
  also have "\<dots> = image_mset (\<lambda>i. f (items ! i)) (mset [0..<length items])"
    using runtime_ok_pool [OF assms] by simp
  also have "\<dots> = mset (map (\<lambda>i. f (items ! i)) [0..<length items])"
    by (simp del: mset_upt)
  also have "map (\<lambda>i. f (items ! i)) [0..<length items] = map f items"
    by (rule nth_equalityI) simp_all
  finally show ?thesis .
qed

lemma mset_concat_imap_unordered:
  "runtime_ok rt \<Longrightarrow> mset (concat (imap_unordered rt f items)) = mset (concat (map f items))"
  by (rule mset_concat_cong) (rule mset_imap_unordered)

text \<open>Both strategies, sequential or not, as rearrangements of their sequential result.\<close>

lemma mset_anagrams_word_centric:
  "runtime_ok rt \<Longrightarrow>
     mset (anagrams_word_centric rt word S dividers nprocs)
       = mset (concat (map (\<lambda>p. ordered_word_anagrams p S dividers)
                         (permutations word (length word))))"
  by (simp add: anagrams_word_centric_def Let_def mset_concat_imap_unordered)

lemma mset_anagrams_word_list_centric:
  "runtime_ok rt \<Longrightarrow>
     mset (anagrams_word_list_centric rt word S dividers nprocs)
       = mset (concat (map (\<lambda>d. div_to_anagrams d (bucket_by_length (frozenset_order rt S))
                                   (int (length word)) (wp_to_comparable_form [word]))
                         dividers))"
  by (simp add: anagrams_word_list_centric_def Let_def mset_concat_imap_unordered)

section \<open>The two strategies\<close>

lemma in_div_to_anagrams:
  "wp \<in> set (div_to_anagrams d (bucket_by_length ws) L (wp_to_comparable_form [word])) \<longleftrightarrow>
     list_all2 (\<lambda>w j. w \<in> set ws \<and> int (length w) = j) wp (diffs (0 # d @ [L])) \<and>
     mset (concat wp) = mset word"
proof -
  have "list_all2 (\<lambda>x bin. x \<in> set bin) wp (map (bucket_by_length ws) ip)
        \<longleftrightarrow> list_all2 (\<lambda>w j. w \<in> set ws \<and> int (length w) = j) wp ip" for ip
    by (simp add: list_all2_map2 bucket_by_length_eq)
  then show ?thesis
    using comparable_form_eq_iff [of wp "[word]"]
    by (simp add: div_to_anagrams_def ip_to_word_partitions_def Let_def set_product
        div_to_integer_partition_diffs)
qed

lemma in_ordered_word_anagrams:
  "wp \<in> set (ordered_word_anagrams p S dividers) \<longleftrightarrow>
     (\<exists>d\<in>set dividers. wp = slices p (0 # d @ [int (length p)])) \<and> set wp \<subseteq> S"
  by (auto simp: ordered_word_anagrams_def dividers_to_word_partitions_def
      div_word_partitions_slices)

lemma all2_lengths:
  "list_all2 (\<lambda>w j. w \<in> A \<and> int (length w) = j) wp ip \<longleftrightarrow>
     set wp \<subseteq> A \<and> map (\<lambda>w. int (length w)) wp = ip"
  by (induction wp arbitrary: ip) (auto simp: list_all2_Cons1)

lemma valid_divider_augmented:
  assumes "valid_divider n d"
  shows "sorted (0 # d @ [int n])" and "\<forall>x\<in>set (0 # d @ [int n]). 0 \<le> x \<and> x \<le> int n"
proof -
  have "sorted d" using assms unfolding valid_divider_def
    by (simp add: strict_sorted_iff)
  then show "sorted (0 # d @ [int n])"
    using assms by (auto simp: valid_divider_def sorted_append intro: less_imp_le)
  show "\<forall>x\<in>set (0 # d @ [int n]). 0 \<le> x \<and> x \<le> int n"
    using assms by (auto simp: valid_divider_def intro: less_imp_le)
qed

lemma strategies_same_set:
  assumes "\<forall>d\<in>set dividers. valid_divider (length word) d"
  shows "set (concat (map (\<lambda>p. ordered_word_anagrams p (set ws) dividers)
                       (permutations word (length word))))
       = set (concat (map (\<lambda>d. div_to_anagrams d (bucket_by_length ws)
                                   (int (length word)) (wp_to_comparable_form [word]))
                         dividers))"
  (is "?wc = ?wlc")
proof (intro set_eqI iffI)
  fix wp assume "wp \<in> ?wc"
  then obtain p d where p: "p \<in> set (permutations word (length word))"
    and d: "d \<in> set dividers" and wp: "wp = slices p (0 # d @ [int (length p)])"
    and sub: "set wp \<subseteq> set ws"
    by (auto simp: in_ordered_word_anagrams)
  from p have len: "length p = length word" and "mset p \<subseteq># mset word"
    by (simp_all add: set_permutations)
  then have mset: "mset p = mset word"
    by (metis mset_subset_size nat_less_le size_mset subset_mset.le_imp_less_or_eq)
  note aug = valid_divider_augmented [OF assms [rule_format, OF d], folded len]
  have "map (\<lambda>w. int (length w)) wp = diffs (0 # d @ [int (length p)])"
    unfolding wp using aug by (rule slices_lengths)
  moreover have "concat wp = p"
    unfolding wp using concat_slices [OF aug] by (simp add: slice_full)
  ultimately have "wp \<in> set (div_to_anagrams d (bucket_by_length ws) (int (length word))
                               (wp_to_comparable_form [word]))"
    using sub mset len by (simp add: in_div_to_anagrams all2_lengths)
  with d show "wp \<in> ?wlc" by auto
next
  fix wp assume "wp \<in> ?wlc"
  then obtain d where d: "d \<in> set dividers"
    and sub: "set wp \<subseteq> set ws"
    and lens: "map (\<lambda>w. int (length w)) wp = diffs (0 # d @ [int (length word)])"
    and mset: "mset (concat wp) = mset word"
    by (auto simp: in_div_to_anagrams all2_lengths)
  let ?p = "concat wp"
  have len: "length ?p = length word"
    using mset by (metis size_mset)
  then have "?p \<in> set (permutations word (length word))"
    using mset by (simp add: set_permutations)
  moreover have "wp = slices ?p (0 # d @ [int (length ?p)])"
    using slices_concat [of 0 "d @ [int (length word)]" wp "[]" "[]"] lens len by simp
  then have "wp \<in> set (ordered_word_anagrams ?p (set ws) dividers)"
    unfolding in_ordered_word_anagrams using d sub by blast
  ultimately show "wp \<in> ?wc" by auto
qed


lemma all_dividers_valid_divider: "d \<in> set (all_dividers n) \<Longrightarrow> valid_divider n d"
  using all_dividers_valid [of d n] by (simp add: valid_divider_def)

lemma set_anagrams_word_centric:
  assumes "runtime_ok rt"
  shows "set (anagrams_word_centric rt word S dividers nprocs)
       = set (concat (map (\<lambda>p. ordered_word_anagrams p S dividers)
                         (permutations word (length word))))"
  using mset_anagrams_word_centric [OF assms] by (rule mset_eq_setD)

lemma set_anagrams_word_list_centric:
  assumes "runtime_ok rt" and "finite S" and "\<forall>d\<in>set dividers. valid_divider (length word) d"
  shows "set (anagrams_word_list_centric rt word S dividers nprocs)
       = set (concat (map (\<lambda>p. ordered_word_anagrams p S dividers)
                         (permutations word (length word))))"
proof -
  have S: "set (frozenset_order rt S) = S"
    using runtime_ok_frozenset [OF assms(1,2)] by simp
  have "set (anagrams_word_list_centric rt word S dividers nprocs)
        = set (concat (map (\<lambda>d. div_to_anagrams d (bucket_by_length (frozenset_order rt S))
                                   (int (length word)) (wp_to_comparable_form [word]))
                         dividers))"
    using mset_anagrams_word_list_centric [OF assms(1)] by (rule mset_eq_setD)
  also have "\<dots> = set (concat (map (\<lambda>p. ordered_word_anagrams p (set (frozenset_order rt S)) dividers)
                         (permutations word (length word))))"
    using strategies_same_set [OF assms(3)] by (rule sym)
  finally show ?thesis unfolding S .
qed

text \<open>
  C1: for every word and every word list, the word-centric and the dictionary-centric
  strategy, both run sequentially (\<open>nprocs \<le> 1\<close>) on the reduced word list and the
  dividers of the word, return the same set of word sequences. (The lists themselves
  may differ in order and in how often a sequence occurs.)
\<close>

theorem strategies_agree:
  assumes "runtime_ok rt" and "nprocs1 \<le> 1" and "nprocs2 \<le> 1"
  shows "set (anagrams_word_centric rt word (reduced_word_list word word_list)
                (all_dividers (length word)) nprocs1)
       = set (anagrams_word_list_centric rt word (reduced_word_list word word_list)
                (all_dividers (length word)) nprocs2)"
  using set_anagrams_word_centric [OF assms(1)]
    set_anagrams_word_list_centric [OF assms(1) finite_reduced_word_list]
    all_dividers_valid_divider
  by simp

theorem strategies_agree_witness:
  "runtime_ok sorted_runtime \<and>
   anagrams_word_centric sorted_runtime ''eat''
     (reduced_word_list ''eat'' [''eat'', ''ate'', ''tea'', ''ea'', ''at'', ''e'', ''a'', ''t''])
     (all_dividers (length ''eat'')) 1
   = [[''e'', ''at''], [''ea'', ''t''], [''e'', ''a'', ''t''], [''e'', ''t'', ''a''],
      [''a'', ''e'', ''t''], [''at'', ''e''], [''a'', ''t'', ''e''], [''t'', ''ea''],
      [''t'', ''e'', ''a''], [''t'', ''a'', ''e'']] \<and>
   anagrams_word_list_centric sorted_runtime ''eat''
     (reduced_word_list ''eat'' [''eat'', ''ate'', ''tea'', ''ea'', ''at'', ''e'', ''a'', ''t''])
     (all_dividers (length ''eat'')) 1
   = [[''e'', ''at''], [''t'', ''ea''], [''at'', ''e''], [''ea'', ''t''],
      [''a'', ''e'', ''t''], [''a'', ''t'', ''e''], [''e'', ''a'', ''t''], [''e'', ''t'', ''a''],
      [''t'', ''a'', ''e''], [''t'', ''e'', ''a'']] \<and>
   set (anagrams_word_centric sorted_runtime ''eat''
     (reduced_word_list ''eat'' [''eat'', ''ate'', ''tea'', ''ea'', ''at'', ''e'', ''a'', ''t''])
     (all_dividers (length ''eat'')) 1)
   = set (anagrams_word_list_centric sorted_runtime ''eat''
     (reduced_word_list ''eat'' [''eat'', ''ate'', ''tea'', ''ea'', ''at'', ''e'', ''a'', ''t''])
     (all_dividers (length ''eat'')) 1)"
proof (intro conjI)
  show "runtime_ok sorted_runtime" by (rule runtime_ok_sorted_runtime)
  then show "set (anagrams_word_centric sorted_runtime ''eat''
     (reduced_word_list ''eat'' [''eat'', ''ate'', ''tea'', ''ea'', ''at'', ''e'', ''a'', ''t''])
     (all_dividers (length ''eat'')) 1)
   = set (anagrams_word_list_centric sorted_runtime ''eat''
     (reduced_word_list ''eat'' [''eat'', ''ate'', ''tea'', ''ea'', ''at'', ''e'', ''a'', ''t''])
     (all_dividers (length ''eat'')) 1)"
    by (rule strategies_agree) simp_all
qed code_simp+

lemma word_anagrams_cases:
  assumes "word_anagrams rt word word_list method nprocs = Inr pop"
  obtains "pop = anagrams_word_centric rt (remove_whitespace word)
                   (reduced_word_list (remove_whitespace word) word_list)
                   (all_dividers (length (remove_whitespace word))) nprocs"
        and "method = ''word_centric''"
  | "pop = anagrams_word_list_centric rt (remove_whitespace word)
                   (reduced_word_list (remove_whitespace word) word_list)
                   (all_dividers (length (remove_whitespace word))) nprocs"
        and "method = ''word_list_centric''"
  using assms
  by (auto simp: word_anagrams_eq anagram_methods_def Let_def split: if_splits)

lemma set_word_anagrams:
  assumes "runtime_ok rt" and "word_anagrams rt word word_list method nprocs = Inr pop"
  shows "set pop = set (concat (map (\<lambda>p. ordered_word_anagrams p
                                   (reduced_word_list (remove_whitespace word) word_list)
                                   (all_dividers (length (remove_whitespace word))))
                         (permutations (remove_whitespace word) (length (remove_whitespace word)))))"
  using assms(2)
proof (cases rule: word_anagrams_cases)
  case 1
  then show ?thesis using set_anagrams_word_centric [OF assms(1)] by simp
next
  case 2
  then show ?thesis
    using set_anagrams_word_list_centric [OF assms(1) finite_reduced_word_list]
      all_dividers_valid_divider by simp
qed

lemma ordered_word_anagrams_not_single:
  assumes "wp \<in> set (ordered_word_anagrams p (reduced_word_list word word_list) dividers)"
    and "length p = length word"
  shows "length wp \<noteq> 1"
proof
  assume one: "length wp = 1"
  from assms(1) obtain d where wp: "wp = slices p (0 # d @ [int (length p)])"
    and sub: "set wp \<subseteq> reduced_word_list word word_list"
    by (auto simp: in_ordered_word_anagrams)
  from one wp have "d = []" by (simp add: length_slices)
  with wp have "wp = [p]" by (simp add: slice_full)
  with sub have "length p < length word" by (simp add: reduced_word_list_eq)
  with assms(2) show False by simp
qed

text \<open>
  C2: under either strategy \<open>word_anagrams\<close> returns no word sequence of one element;
  in particular no entry of the word list, whatever its length and letters, is
  returned as a one-word answer.
\<close>

theorem no_single_word_answer:
  assumes "runtime_ok rt" and "word_anagrams rt word word_list method nprocs = Inr pop"
  shows "(\<forall>wp\<in>set pop. length wp \<noteq> 1) \<and> (\<forall>w\<in>set word_list. [w] \<notin> set pop)"
proof -
  have "length wp \<noteq> 1" if "wp \<in> set pop" for wp
  proof -
    from that obtain p where "p \<in> set (permutations (remove_whitespace word) (length (remove_whitespace word)))"
      and "wp \<in> set (ordered_word_anagrams p (reduced_word_list (remove_whitespace word) word_list)
                        (all_dividers (length (remove_whitespace word))))"
      unfolding set_word_anagrams [OF assms] by auto
    then show ?thesis
      using ordered_word_anagrams_not_single by (simp add: set_permutations)
  qed
  then show ?thesis by fastforce
qed

theorem no_single_word_answer_witness:
  "runtime_ok sorted_runtime \<and>
   word_anagrams sorted_runtime ''at'' [''at'', ''ta'', ''a'', ''t''] ''word_centric'' 1
     = Inr [[''a'', ''t''], [''t'', ''a'']] \<and>
   length [''a'', ''t''] \<noteq> 1 \<and> length [''t'', ''a''] \<noteq> 1 \<and>
   [''at''] \<notin> set [[''a'', ''t''], [''t'', ''a'']] \<and>
   [''ta''] \<notin> set [[''a'', ''t''], [''t'', ''a'']]"
proof -
  have run: "word_anagrams sorted_runtime ''at'' [''at'', ''ta'', ''a'', ''t''] ''word_centric'' 1
     = Inr [[''a'', ''t''], [''t'', ''a'']]"
    by code_simp
  from no_single_word_answer [OF runtime_ok_sorted_runtime run] runtime_ok_sorted_runtime run
  show ?thesis by simp
qed

lemma diffs_inject: "diffs (a # xs) = diffs (a # ys) \<Longrightarrow> xs = ys"
  by (metis running_sums_diffs)

lemma distinct_div_to_anagrams:
  "distinct ws \<Longrightarrow> distinct (div_to_anagrams d (bucket_by_length ws) L cf)"
  by (simp add: div_to_anagrams_def ip_to_word_partitions_def Let_def distinct_product
      bucket_by_length_eq)

lemma distinct_sequential_word_list_centric:
  assumes "distinct ws" and "distinct dividers"
  shows "distinct (concat (map (\<lambda>d. div_to_anagrams d (bucket_by_length ws) L
                                        (wp_to_comparable_form [word])) dividers))"
proof (rule distinct_concat_map)
  show "distinct dividers" by fact
  show "distinct (div_to_anagrams d (bucket_by_length ws) L (wp_to_comparable_form [word]))" for d
    using assms(1) by (rule distinct_div_to_anagrams)
  show "set (div_to_anagrams d1 (bucket_by_length ws) L (wp_to_comparable_form [word])) \<inter>
        set (div_to_anagrams d2 (bucket_by_length ws) L (wp_to_comparable_form [word])) = {}"
    if "d1 \<noteq> d2" for d1 d2
  proof -
    have "d1 = d2" if "wp \<in> set (div_to_anagrams d1 (bucket_by_length ws) L (wp_to_comparable_form [word]))"
      "wp \<in> set (div_to_anagrams d2 (bucket_by_length ws) L (wp_to_comparable_form [word]))" for wp
    proof -
      from that have "diffs (0 # d1 @ [L]) = diffs (0 # d2 @ [L])"
        by (simp add: in_div_to_anagrams all2_lengths)
      then show ?thesis using diffs_inject by fastforce
    qed
    with that show ?thesis by blast
  qed
qed

text \<open>
  C10: for every word and every word list, the list \<open>anagrams_word_list_centric\<close>
  returns with \<open>nprocs \<le> 1\<close>, on the reduced word list and the dividers of the word,
  has no duplicate: each accepted word sequence occurs once.
\<close>

theorem word_list_centric_distinct:
  assumes "runtime_ok rt" and "nprocs \<le> 1"
  shows "distinct (anagrams_word_list_centric rt word (reduced_word_list word word_list)
                     (all_dividers (length word)) nprocs)"
proof -
  have "distinct (frozenset_order rt (reduced_word_list word word_list))"
    using runtime_ok_frozenset [OF assms(1) finite_reduced_word_list] by simp
  then show ?thesis
    using assms(2) distinct_all_dividers
    by (simp add: anagrams_word_list_centric_def Let_def distinct_sequential_word_list_centric)
qed


theorem word_list_centric_distinct_witness:
  "runtime_ok sorted_runtime \<and> (1::int) \<le> 1 \<and>
   anagrams_word_list_centric sorted_runtime ''eat''
     (reduced_word_list ''eat'' [''eat'', ''ate'', ''tea'', ''ea'', ''at'', ''e'', ''a'', ''t''])
     (all_dividers (length ''eat'')) 1
   = [[''e'', ''at''], [''t'', ''ea''], [''at'', ''e''], [''ea'', ''t''],
      [''a'', ''e'', ''t''], [''a'', ''t'', ''e''], [''e'', ''a'', ''t''], [''e'', ''t'', ''a''],
      [''t'', ''a'', ''e''], [''t'', ''e'', ''a'']] \<and>
   distinct (anagrams_word_list_centric sorted_runtime ''eat''
     (reduced_word_list ''eat'' [''eat'', ''ate'', ''tea'', ''ea'', ''at'', ''e'', ''a'', ''t''])
     (all_dividers (length ''eat'')) 1)"
proof (intro conjI)
  show "runtime_ok sorted_runtime" by (rule runtime_ok_sorted_runtime)
  then show "distinct (anagrams_word_list_centric sorted_runtime ''eat''
     (reduced_word_list ''eat'' [''eat'', ''ate'', ''tea'', ''ea'', ''at'', ''e'', ''a'', ''t''])
     (all_dividers (length ''eat'')) 1)"
    by (rule word_list_centric_distinct) simp
  show "(1::int) \<le> 1" by simp
qed code_simp

lemma word_centric_eat:
  "concat (map (\<lambda>p. ordered_word_anagrams p
     (reduced_word_list ''eat'' [''eat'', ''ate'', ''tea'', ''ea'', ''at'', ''e'', ''a'', ''t''])
     (all_dividers (length ''eat''))) (permutations ''eat'' (length ''eat''))) =
   [[''e'', ''at''], [''ea'', ''t''], [''e'', ''a'', ''t''],
      [''e'', ''t'', ''a''], [''a'', ''e'', ''t''], [''at'', ''e''],
      [''a'', ''t'', ''e''], [''t'', ''ea''], [''t'', ''e'', ''a''],
      [''t'', ''a'', ''e'']]"
  by code_simp

lemma remove_whitespace_eat: "remove_whitespace ''eat'' = ''eat''"
  by code_simp

text \<open>
  C3: for the word \<open>eat\<close> and the word list \<open>eat, ate, tea, ea, at, e, a, t\<close>,
  \<open>word_anagrams\<close> returns under either strategy, as a set, the four two-word
  sequences \<open>e at\<close>, \<open>ea t\<close>, \<open>at e\<close>, \<open>t ea\<close> and the six orderings of the
  single letters.
\<close>

theorem word_anagrams_example:
  assumes "runtime_ok rt" and "method \<in> {''word_centric'', ''word_list_centric''}"
  shows "\<exists>pop. word_anagrams rt ''eat''
                 [''eat'', ''ate'', ''tea'', ''ea'', ''at'', ''e'', ''a'', ''t''] method nprocs = Inr pop \<and>
               set pop = {[''e'', ''at''], [''ea'', ''t''], [''at'', ''e''], [''t'', ''ea''],
                          [''e'', ''a'', ''t''], [''e'', ''t'', ''a''], [''a'', ''e'', ''t''],
                          [''a'', ''t'', ''e''], [''t'', ''a'', ''e''], [''t'', ''e'', ''a'']}"
proof -
  from assms(2) obtain f where "anagram_methods method = Some f"
    by (auto simp: anagram_methods_def)
  then obtain pop where pop: "word_anagrams rt ''eat''
      [''eat'', ''ate'', ''tea'', ''ea'', ''at'', ''e'', ''a'', ''t''] method nprocs = Inr pop"
    by (simp add: word_anagrams_eq Let_def)
  have "set pop = set [[''e'', ''at''], [''ea'', ''t''], [''e'', ''a'', ''t''],
      [''e'', ''t'', ''a''], [''a'', ''e'', ''t''], [''at'', ''e''],
      [''a'', ''t'', ''e''], [''t'', ''ea''], [''t'', ''e'', ''a''],
      [''t'', ''a'', ''e'']]"
    unfolding set_word_anagrams [OF assms(1) pop] remove_whitespace_eat word_centric_eat ..
  then have "set pop = {[''e'', ''at''], [''ea'', ''t''], [''at'', ''e''], [''t'', ''ea''],
                          [''e'', ''a'', ''t''], [''e'', ''t'', ''a''], [''a'', ''e'', ''t''],
                          [''a'', ''t'', ''e''], [''t'', ''a'', ''e''], [''t'', ''e'', ''a'']}"
    by (simp add: insert_commute)
  with pop show ?thesis by blast
qed

theorem word_anagrams_example_witness:
  "runtime_ok sorted_runtime \<and>
   word_anagrams sorted_runtime ''eat''
     [''eat'', ''ate'', ''tea'', ''ea'', ''at'', ''e'', ''a'', ''t''] ''word_centric'' 1
   = Inr [[''e'', ''at''], [''ea'', ''t''], [''e'', ''a'', ''t''], [''e'', ''t'', ''a''],
      [''a'', ''e'', ''t''], [''at'', ''e''], [''a'', ''t'', ''e''], [''t'', ''ea''],
      [''t'', ''e'', ''a''], [''t'', ''a'', ''e'']] \<and>
   word_anagrams sorted_runtime ''eat''
     [''eat'', ''ate'', ''tea'', ''ea'', ''at'', ''e'', ''a'', ''t''] ''word_list_centric'' 4
   = Inr [[''a'', ''e'', ''t''], [''a'', ''t'', ''e''], [''e'', ''a'', ''t''], [''e'', ''t'', ''a''],
      [''t'', ''a'', ''e''], [''t'', ''e'', ''a''], [''at'', ''e''], [''ea'', ''t''],
      [''e'', ''at''], [''t'', ''ea'']] \<and>
   (\<exists>pop. word_anagrams sorted_runtime ''eat''
                 [''eat'', ''ate'', ''tea'', ''ea'', ''at'', ''e'', ''a'', ''t''] ''word_list_centric'' 4 = Inr pop \<and>
               set pop = {[''e'', ''at''], [''ea'', ''t''], [''at'', ''e''], [''t'', ''ea''],
                          [''e'', ''a'', ''t''], [''e'', ''t'', ''a''], [''a'', ''e'', ''t''],
                          [''a'', ''t'', ''e''], [''t'', ''a'', ''e''], [''t'', ''e'', ''a'']})"
proof (intro conjI)
  show "runtime_ok sorted_runtime" by (rule runtime_ok_sorted_runtime)
  then show "\<exists>pop. word_anagrams sorted_runtime ''eat''
                 [''eat'', ''ate'', ''tea'', ''ea'', ''at'', ''e'', ''a'', ''t''] ''word_list_centric'' 4 = Inr pop \<and>
               set pop = {[''e'', ''at''], [''ea'', ''t''], [''at'', ''e''], [''t'', ''ea''],
                          [''e'', ''a'', ''t''], [''e'', ''t'', ''a''], [''a'', ''e'', ''t''],
                          [''a'', ''t'', ''e''], [''t'', ''a'', ''e''], [''t'', ''e'', ''a'']}"
    by (rule word_anagrams_example) simp
qed code_simp+

section \<open>What word_anagrams returns\<close>

lemma combinations_complete:
  "sorted_wrt (<) xs \<Longrightarrow> sorted_wrt (<) ys \<Longrightarrow> set ys \<subseteq> set xs \<Longrightarrow>
     ys \<in> set (combinations xs (length ys))"
  for xs ys :: "int list"
proof (induction xs arbitrary: ys)
  case Nil
  then show ?case by simp
next
  case (Cons x xs)
  show ?case
  proof (cases ys)
    case Nil
    then show ?thesis by simp
  next
    case ys: (Cons y ys')
    from Cons.prems(1) have xs: "sorted_wrt (<) xs" and x: "\<forall>z\<in>set xs. x < z" by simp_all
    from Cons.prems(2) ys have ys': "sorted_wrt (<) ys'" and y: "\<forall>z\<in>set ys'. y < z" by simp_all
    show ?thesis
    proof (cases "y = x")
      case True
      then have "set ys' \<subseteq> set xs" using Cons.prems(3) ys y by auto
      then have "ys' \<in> set (combinations xs (length ys'))"
        using Cons.IH xs ys' by blast
      then show ?thesis using ys True by simp
    next
      case False
      then have "y \<in> set xs" using Cons.prems(3) ys by auto
      then have "x < y" using x by blast
      then have "set ys \<subseteq> set xs" using Cons.prems(3) ys y by fastforce
      then have "ys \<in> set (combinations xs (length ys))"
        using Cons.IH xs Cons.prems(2) by blast
      then show ?thesis using ys by simp
    qed
  qed
qed

lemma valid_divider_length:
  assumes "valid_divider n d" and "1 \<le> n"
  shows "length d < n"
proof -
  have "distinct d" using assms(1) by (simp add: valid_divider_def strict_sorted_iff)
  then have "length d = card (set d)" by (simp add: distinct_card)
  also have "set d \<subseteq> set (range1 n)" using assms(1) by (auto simp: valid_divider_def set_range1)
  then have "card (set d) \<le> card (set (range1 n))" by (simp add: card_mono)
  also have "\<dots> \<le> length (range1 n)" by (rule card_length)
  also have "\<dots> = n - 1" by (simp add: range1_def)
  finally show ?thesis using assms(2) by simp
qed

lemma set_all_dividers: "1 \<le> n \<Longrightarrow> set (all_dividers n) = {d. valid_divider n d}"
proof (intro set_eqI iffI)
  fix d assume "d \<in> set (all_dividers n)"
  then show "d \<in> {d. valid_divider n d}" by (simp add: all_dividers_valid_divider)
next
  fix d assume "1 \<le> n" and "d \<in> {d. valid_divider n d}"
  then have d: "valid_divider n d" by simp
  then have "d \<in> set (combinations (range1 n) (length d))"
    by (intro combinations_complete) (auto simp: valid_divider_def sorted_range1 set_range1)
  moreover have "length d < n" using d \<open>1 \<le> n\<close> by (rule valid_divider_length)
  ultimately show "d \<in> set (all_dividers n)"
    by (auto simp: all_dividers_def k_divider_sets_def)
qed


lemma diffs_running_sums: "diffs (a # running_sums a xs) = xs"
  by (induction xs arbitrary: a) simp_all

lemma length_running_sums: "length (running_sums a xs) = length xs"
  by (induction xs arbitrary: a) simp_all

lemma last_running_sums: "xs \<noteq> [] \<Longrightarrow> last (running_sums a xs) = a + sum_list xs"
proof (induction xs arbitrary: a)
  case (Cons x xs)
  show ?case
  proof (cases xs)
    case Nil
    then show ?thesis by simp
  next
    case (Cons y ys)
    then have "running_sums (a + x) xs \<noteq> []" by simp
    then show ?thesis using Cons.IH [of "a + x"] Cons by (simp add: add.assoc)
  qed
qed simp

lemma running_sums_snoc:
  assumes "xs \<noteq> []"
  shows "running_sums a xs = butlast (running_sums a xs) @ [a + sum_list xs]"
proof -
  have "running_sums a xs \<noteq> []"
    using assms length_running_sums [of a xs] by (metis length_0_conv)
  then show ?thesis using last_running_sums [OF assms, of a] by (metis append_butlast_last_id)
qed

lemma running_sums_increasing:
  "\<forall>x\<in>set xs. 0 < x \<Longrightarrow> sorted_wrt (<) (a # running_sums a xs)"
proof (induction xs arbitrary: a)
  case (Cons x xs)
  then have tail: "sorted_wrt (<) ((a + x) # running_sums (a + x) xs)" by simp
  then have "\<forall>y\<in>set (running_sums (a + x) xs). a + x < y" by simp
  moreover have "a < a + x" using Cons.prems by simp
  ultimately have "\<forall>y\<in>set (running_sums (a + x) xs). a < y" by fastforce
  with tail \<open>a < a + x\<close> show ?case by simp
qed simp

text \<open>The divider whose integer partition is a given tuple of positive part lengths.\<close>

lemma divider_of_lengths:
  assumes "lens \<noteq> []" and "\<forall>x\<in>set lens. 0 < x" and "sum_list lens = int n"
  obtains d where "valid_divider n d" and "diffs (0 # d @ [int n]) = lens"
proof
  let ?d = "butlast (running_sums 0 lens)"
  have snoc: "running_sums 0 lens = ?d @ [int n]"
    using running_sums_snoc [OF assms(1), of 0] assms(3) by simp
  have "sorted_wrt (<) (0 # ?d @ [int n])"
    using running_sums_increasing [OF assms(2), of 0] snoc by simp
  then show "valid_divider n ?d"
    by (auto simp: valid_divider_def sorted_wrt_append)
  show "diffs (0 # ?d @ [int n]) = lens"
    using diffs_running_sums [of 0 lens] snoc by simp
qed

lemma part_shorter_than_whole:
  assumes "2 \<le> length wp" and "\<forall>w\<in>set wp. w \<noteq> []" and "w \<in> set wp"
  shows "length w < length (concat wp)" and "mset w \<subseteq># mset (concat wp)"
proof -
  from assms(3) obtain xs ys where wp: "wp = xs @ w # ys" by (auto dest: split_list)
  with assms(1) have "xs \<noteq> [] \<or> ys \<noteq> []" by auto
  then obtain v where "v \<in> set xs \<union> set ys" by (cases xs; cases ys) auto
  moreover from this have "v \<noteq> []" using assms(2) wp by auto
  ultimately have "concat xs \<noteq> [] \<or> concat ys \<noteq> []" by auto
  then have "0 < length (concat xs) + length (concat ys)" by auto
  then show "length w < length (concat wp)" using wp by simp
  show "mset w \<subseteq># mset (concat wp)" using wp by simp
qed

lemma sum_list_lengths: "sum_list (map (\<lambda>w. int (length w)) wp) = int (length (concat wp))"
  by (induction wp) simp_all

lemma set_sequential_word_list_centric:
  "set (concat (map (\<lambda>d. div_to_anagrams d (bucket_by_length ws) L (wp_to_comparable_form [word]))
                 dividers))
   = {wp. \<exists>d\<in>set dividers. set wp \<subseteq> set ws \<and>
            map (\<lambda>w. int (length w)) wp = diffs (0 # d @ [L]) \<and> mset (concat wp) = mset word}"
  by (auto simp: in_div_to_anagrams all2_lengths)

lemma set_word_anagrams_spec:
  assumes "runtime_ok rt" and "word_anagrams rt word word_list method nprocs = Inr pop"
  shows "set pop = {wp. 2 \<le> length wp \<and> (\<forall>w\<in>set wp. w \<noteq> [] \<and> w \<in> set word_list) \<and>
                        mset (concat wp) = mset (remove_whitespace word)}"
    (is "_ = ?spec")
proof -
  let ?W = "remove_whitespace word"
  let ?S = "reduced_word_list ?W word_list"
  obtain ws where ws: "set ws = ?S"
    using finite_list [OF finite_reduced_word_list] by blast
  have "set pop = set (concat (map (\<lambda>p. ordered_word_anagrams p (set ws)
                                          (all_dividers (length ?W)))
                                (permutations ?W (length ?W))))"
    by (simp only: set_word_anagrams [OF assms] ws)
  also have "\<dots> = set (concat (map (\<lambda>d. div_to_anagrams d (bucket_by_length ws)
                                     (int (length ?W)) (wp_to_comparable_form [?W]))
                                (all_dividers (length ?W))))"
    by (rule strategies_same_set) (simp add: all_dividers_valid_divider)
  finally have pop: "set pop = {wp. \<exists>d\<in>set (all_dividers (length ?W)). set wp \<subseteq> ?S \<and>
               map (\<lambda>w. int (length w)) wp = diffs (0 # d @ [int (length ?W)]) \<and>
               mset (concat wp) = mset ?W}"
    unfolding set_sequential_word_list_centric ws .
  show ?thesis
  proof (intro set_eqI iffI)
    fix wp assume "wp \<in> set pop"
    then obtain d where d: "d \<in> set (all_dividers (length ?W))" and sub: "set wp \<subseteq> ?S"
      and lens: "map (\<lambda>w. int (length w)) wp = diffs (0 # d @ [int (length ?W)])"
      and mset: "mset (concat wp) = mset ?W"
      unfolding pop by blast
    have "length wp = length d + 1"
      using arg_cong [OF lens, of length] by (simp add: length_diffs)
    moreover have "length wp \<noteq> 1"
    proof
      assume "length wp = 1"
      then obtain w where "wp = [w]" by (cases wp) auto
      with mset sub have "length w = length ?W" and "length w < length ?W"
        by (auto simp: reduced_word_list_eq dest: arg_cong [where f = size])
      then show False by simp
    qed
    ultimately have "2 \<le> length wp" by (cases d) simp_all
    moreover have "w \<noteq> [] \<and> w \<in> set word_list" if "w \<in> set wp" for w
      using that sub by (auto simp: reduced_word_list_eq)
    ultimately show "wp \<in> ?spec" using mset by blast
  next
    fix wp assume "wp \<in> ?spec"
    then have two: "2 \<le> length wp" and parts: "\<forall>w\<in>set wp. w \<noteq> []"
      and dict: "set wp \<subseteq> set word_list" and mset: "mset (concat wp) = mset ?W"
      by auto
    have len: "length (concat wp) = length ?W"
      using mset by (metis size_mset)
    have sub: "set wp \<subseteq> ?S"
    proof
      fix w assume w: "w \<in> set wp"
      from part_shorter_than_whole [OF two parts w] parts w dict mset len
      show "w \<in> ?S" by (auto simp: reduced_word_list_eq Suc_leI)
    qed
    have "sum_list (map (\<lambda>w. int (length w)) wp) = int (length ?W)"
      using len by (simp add: sum_list_lengths)
    moreover have "map (\<lambda>w. int (length w)) wp \<noteq> []" using two by auto
    moreover have "\<forall>x\<in>set (map (\<lambda>w. int (length w)) wp). 0 < x" using parts by auto
    ultimately obtain d where d: "valid_divider (length ?W) d"
      and lens: "diffs (0 # d @ [int (length ?W)]) = map (\<lambda>w. int (length w)) wp"
      using divider_of_lengths [of "map (\<lambda>w. int (length w)) wp" "length ?W"] by blast
    from two obtain w where "w \<in> set wp" by (cases wp) auto
    then have "1 \<le> length ?W"
      using part_shorter_than_whole(1) [OF two parts] len by fastforce
    then have "d \<in> set (all_dividers (length ?W))"
      using d by (simp add: set_all_dividers)
    moreover note sub lens [symmetric]
    ultimately show "wp \<in> set pop" unfolding pop using mset by blast
  qed
qed


text \<open>
  The docstring's notion of an anagram, as far as \<open>word_anagrams\<close> returns it: the
  word sequences returned, under either method and any number of processes, are
  exactly the sequences of at least two non-empty entries of the word list whose
  letters together are the letters of the word without its whitespace.
\<close>

theorem word_anagrams_characterisation:
  assumes "runtime_ok rt" and "word_anagrams rt word word_list method nprocs = Inr pop"
  shows "set pop = {wp. 2 \<le> length wp \<and> (\<forall>w\<in>set wp. w \<noteq> [] \<and> w \<in> set word_list) \<and>
                        mset (concat wp) = mset (remove_whitespace word)}"
  using assms by (rule set_word_anagrams_spec)

theorem word_anagrams_characterisation_witness:
  "runtime_ok sorted_runtime \<and>
   word_anagrams sorted_runtime ''a t'' [''at'', ''ta'', ''a'', ''t'', []] ''word_list_centric'' 1
     = Inr [[''a'', ''t''], [''t'', ''a'']] \<and>
   set [[''a'', ''t''], [''t'', ''a'']]
     = {wp. 2 \<le> length wp \<and> (\<forall>w\<in>set wp. w \<noteq> [] \<and> w \<in> set [''at'', ''ta'', ''a'', ''t'', []]) \<and>
            mset (concat wp) = mset (remove_whitespace ''a t'')}"
proof -
  have run: "word_anagrams sorted_runtime ''a t'' [''at'', ''ta'', ''a'', ''t'', []] ''word_list_centric'' 1
     = Inr [[''a'', ''t''], [''t'', ''a'']]"
    by code_simp
  from word_anagrams_characterisation [OF runtime_ok_sorted_runtime run] runtime_ok_sorted_runtime run
  show ?thesis by simp
qed

text \<open>
  With one process or with several, each strategy returns the same word sequences
  the same number of times; only their order depends on the pool.
\<close>

theorem worker_count_irrelevant:
  assumes "runtime_ok rt"
  shows "mset (anagrams_word_centric rt word S dividers nprocs1)
           = mset (anagrams_word_centric rt word S dividers nprocs2) \<and>
         mset (anagrams_word_list_centric rt word S dividers nprocs1)
           = mset (anagrams_word_list_centric rt word S dividers nprocs2)"
  by (simp add: mset_anagrams_word_centric [OF assms] mset_anagrams_word_list_centric [OF assms])

theorem worker_count_irrelevant_witness:
  "runtime_ok sorted_runtime \<and>
   anagrams_word_list_centric sorted_runtime ''at'' {''a'', ''t''} [[], [1]] 1
     = [[''a'', ''t''], [''t'', ''a'']] \<and>
   anagrams_word_list_centric sorted_runtime ''at'' {''a'', ''t''} [[], [1]] 2
     = [[''a'', ''t''], [''t'', ''a'']] \<and>
   anagrams_word_centric sorted_runtime ''at'' {''a'', ''t''} [[], [1]] 1
     = [[''a'', ''t''], [''t'', ''a'']] \<and>
   anagrams_word_centric sorted_runtime ''at'' {''a'', ''t''} [[], [1]] 2
     = [[''t'', ''a''], [''a'', ''t'']] \<and>
   mset (anagrams_word_centric sorted_runtime ''at'' {''a'', ''t''} [[], [1]] 1)
     = mset (anagrams_word_centric sorted_runtime ''at'' {''a'', ''t''} [[], [1]] 2)"
proof (intro conjI)
  show "runtime_ok sorted_runtime" by (rule runtime_ok_sorted_runtime)
  show "mset (anagrams_word_centric sorted_runtime ''at'' {''a'', ''t''} [[], [1]] 1)
     = mset (anagrams_word_centric sorted_runtime ''at'' {''a'', ''t''} [[], [1]] 2)"
    using worker_count_irrelevant [OF runtime_ok_sorted_runtime] by blast
qed code_simp+

text \<open>
  A word of length 1 has the 0-divider only, its reduced word list is empty, and
  \<open>word_anagrams\<close> returns the empty list.
\<close>

theorem word_of_length_one:
  assumes "runtime_ok rt" and "length (remove_whitespace word) = 1"
    and "method \<in> {''word_centric'', ''word_list_centric''}"
  shows "all_dividers (length (remove_whitespace word)) = [[]] \<and>
         reduced_word_list (remove_whitespace word) word_list = {} \<and>
         word_anagrams rt word word_list method nprocs = Inr []"
proof -
  from assms(3) obtain f where "anagram_methods method = Some f"
    by (auto simp: anagram_methods_def)
  then obtain pop where pop: "word_anagrams rt word word_list method nprocs = Inr pop"
    by (simp add: word_anagrams_eq Let_def)
  have "wp \<notin> set pop" for wp
  proof
    assume "wp \<in> set pop"
    then have two: "2 \<le> length wp" and parts: "\<forall>w\<in>set wp. w \<noteq> []"
      and "mset (concat wp) = mset (remove_whitespace word)"
      unfolding set_word_anagrams_spec [OF assms(1) pop] by auto
    then have len: "length (concat wp) = 1"
      using assms(2) by (metis size_mset)
    from two obtain w where w: "w \<in> set wp" by (cases wp) auto
    then have "w \<noteq> []" using parts by simp
    with part_shorter_than_whole(1) [OF two parts w] len show False by simp
  qed
  then have "pop = []" by (cases pop) auto
  moreover have "all_dividers 1 = [[]]"
    by (simp add: all_dividers_def k_divider_sets_def)
  ultimately show ?thesis
    using pop assms(2) by (auto simp: reduced_word_list_eq)
qed

theorem word_of_length_one_witness:
  "runtime_ok sorted_runtime \<and> length (remove_whitespace '' a'') = 1 \<and>
   word_anagrams sorted_runtime '' a'' [''a'', ''b'', []] ''word_centric'' 1 = Inr [] \<and>
   word_anagrams sorted_runtime '' a'' [''a'', ''b'', []] ''word_list_centric'' 3 = Inr []"
proof -
  have len: "length (remove_whitespace '' a'') = 1" by code_simp
  from word_of_length_one [OF runtime_ok_sorted_runtime len, of "''word_centric''" "[''a'', ''b'', []]" 1]
    word_of_length_one [OF runtime_ok_sorted_runtime len, of "''word_list_centric''" "[''a'', ''b'', []]" 3]
    runtime_ok_sorted_runtime len
  show ?thesis by simp
qed

text \<open>
  The word-centric strategy does not merge the permutations that repeated letters
  make equal: for \<open>aa\<close> over the word list \<open>a\<close> it returns the sequence \<open>a a\<close>
  twice, the dictionary-centric strategy once.
\<close>

theorem word_centric_repeats:
  "anagrams_word_centric sorted_runtime ''aa'' (reduced_word_list ''aa'' [''a''])
     (all_dividers (length ''aa'')) 1
     = [[''a'', ''a''], [''a'', ''a'']] \<and>
   anagrams_word_list_centric sorted_runtime ''aa'' (reduced_word_list ''aa'' [''a''])
     (all_dividers (length ''aa'')) 1
     = [[''a'', ''a'']]"
  by code_simp

end
